theory Spec2Isabelle
  imports Main "HOL-Library.Word" "HOL-Library.Signed_Division"
begin

unbundle bit_operations_syntax

section \<open>C integers\<close>

text \<open>
  \<open>herd/main.h\<close> computes with \<open>int\<close> (32 bits, two's complement) and \<open>uint32_t\<close>.
  Both are 32-bit words here; an \<open>int\<close> is read with \<open>sint\<close>, a \<open>uint32_t\<close> with
  \<open>uint\<close>. Addition and multiplication are the word operations, so a signed result
  outside the range of \<open>int\<close> wraps around as the 32-bit machine instruction does
  (ISO C leaves that case undefined). The remainder operator \<open>%\<close> truncates towards zero
  on \<open>int\<close>; a zero divisor, and \<open>INT_MIN % -1\<close>, trap and are results of their own.
\<close>

type_synonym c_int = "32 word"
type_synonym uint32_t = "32 word"

datatype c_error = Division_By_Zero | Division_Overflow | Out_Of_Bounds

definition INT_MAX :: int where
  "INT_MAX = 2147483647"

definition INT_MIN :: int where
  "INT_MIN = - 2147483648"

definition c_int_rem :: "c_int \<Rightarrow> c_int \<Rightarrow> c_error + c_int" where
  "c_int_rem a b =
     (if b = 0 then Inl Division_By_Zero
      else if sint a = INT_MIN \<and> sint b = - 1 then Inl Division_Overflow
      else Inr (word_of_int (sint a smod sint b)))"

definition c_uint_rem :: "uint32_t \<Rightarrow> uint32_t \<Rightarrow> c_error + uint32_t" where
  "c_uint_rem a b = (if b = 0 then Inl Division_By_Zero else Inr (a mod b))"

section \<open>Constants of \<open>herd/main.h\<close>\<close>

definition HERD_MICA_OFFSET :: c_int where
  "HERD_MICA_OFFSET = 10"

text \<open>
  \<open>MICA_OP_GET\<close> and \<open>MICA_OP_PUT\<close> are defined by the key-value engine's header, which
  is not part of these sources; the two macros below take them as arguments.
\<close>

definition HERD_OP_GET :: "c_int \<Rightarrow> c_int" where
  "HERD_OP_GET MICA_OP_GET = MICA_OP_GET + HERD_MICA_OFFSET"

definition HERD_OP_PUT :: "c_int \<Rightarrow> c_int" where
  "HERD_OP_PUT MICA_OP_PUT = MICA_OP_PUT + HERD_MICA_OFFSET"

definition NUM_WORKERS :: c_int where
  "NUM_WORKERS = 12"

definition NUM_CLIENTS :: c_int where
  "NUM_CLIENTS = 70"

definition WINDOW_SIZE :: c_int where
  "WINDOW_SIZE = 32"

definition UNSIG_BATCH :: c_int where
  "UNSIG_BATCH = 64"

text \<open>The macro \<open>UNSIG_BATCH_\<close> of the source (a name cannot end with an underscore here).\<close>

definition UNSIG_BATCH_mask :: c_int where
  "UNSIG_BATCH_mask = UNSIG_BATCH - 1"

definition RR_SIZE :: c_int where
  "RR_SIZE = 16 * 1024 * 1024"

text \<open>
  The macro \<open>OFFSET(wn, cn, ws)\<close>. Its body does not parenthesise the parameters, so it is
  this function of three \<open>int\<close> values when the arguments are variables or constants, as
  they are where the client uses it: \<open>OFFSET(wn, clt_gid, ws[target_server][wn])\<close>.
\<close>

definition OFFSET :: "c_int \<Rightarrow> c_int \<Rightarrow> c_int \<Rightarrow> c_int" where
  "OFFSET wn cn ws = (wn * NUM_CLIENTS * WINDOW_SIZE) + (cn * WINDOW_SIZE) + ws"

section \<open>Sharding and replication helper functions\<close>

text \<open>
  In \<open>key_bkt % num_shards\<close> the \<open>int\<close> operand is converted to \<open>uint32_t\<close> and the
  remainder is unsigned; the \<open>return\<close> converts it back to \<open>int\<close>. Both conversions keep
  the 32 bits.
\<close>

definition herd_get_shard_for_key :: "uint32_t \<Rightarrow> c_int \<Rightarrow> c_error + c_int" where
  "herd_get_shard_for_key key_bkt num_shards = c_uint_rem key_bkt num_shards"

definition herd_get_primary_server_for_shard :: "c_int \<Rightarrow> c_int \<Rightarrow> c_error + c_int" where
  "herd_get_primary_server_for_shard shard_id num_servers = c_int_rem shard_id num_servers"

text \<open>
  The loop of \<open>herd_get_servers_for_shard\<close>, from the value \<open>i\<close> of its counter on. The
  array behind the pointer \<open>servers\<close> is a list, returned updated; a store beyond its end
  is the result \<open>Out_Of_Bounds\<close>.
\<close>

function servers_loop ::
  "c_int \<Rightarrow> c_int \<Rightarrow> c_int \<Rightarrow> c_int \<Rightarrow> c_int list \<Rightarrow> c_error + c_int list" where
  "servers_loop i shard_id num_servers replication_factor servers =
     (if i <s replication_factor then
        (case c_int_rem (shard_id + i) num_servers of
           Inl e \<Rightarrow> Inl e
         | Inr v \<Rightarrow>
             if 0 \<le> sint i \<and> nat (sint i) < length servers
             then servers_loop (i + 1) shard_id num_servers replication_factor
                    (servers[nat (sint i) := v])
             else Inl Out_Of_Bounds)
      else Inr servers)"
  by pat_completeness auto
termination
proof (relation "measure (\<lambda>(i, _, _, r, _). nat (sint r - sint i))")
  fix i shard_id num_servers replication_factor :: c_int
    and servers :: "c_int list" and v :: c_int
  assume "i <s replication_factor"
  then have less: "sint i < sint replication_factor"
    by (simp add: word_sless_alt)
  have "sint replication_factor < 2 ^ 31" "- (2 ^ 31) \<le> sint i"
    using sint_lt [of replication_factor] sint_ge [of i] by simp_all
  with less have "sint (i + 1) = sint i + 1"
    by (simp add: sint_word_ariths(1) signed_take_bit_int_eq_self)
  with less show "((i + 1, shard_id, num_servers, replication_factor, servers[nat (sint i) := v]),
      (i, shard_id, num_servers, replication_factor, servers))
    \<in> measure (\<lambda>(i, _, _, r, _). nat (sint r - sint i))"
    by simp
qed simp

definition herd_get_servers_for_shard ::
  "c_int \<Rightarrow> c_int \<Rightarrow> c_int \<Rightarrow> c_int list \<Rightarrow> c_error + c_int list" where
  "herd_get_servers_for_shard shard_id num_servers replication_factor servers =
     servers_loop 0 shard_id num_servers replication_factor servers"

text \<open>The loop of \<open>herd_server_owns_shard\<close>, with its early \<open>return 1\<close>.\<close>

function owns_loop ::
  "c_int \<Rightarrow> c_int \<Rightarrow> c_int \<Rightarrow> c_int \<Rightarrow> c_int \<Rightarrow> c_error + c_int" where
  "owns_loop i server_id shard_id num_servers replication_factor =
     (if i <s replication_factor then
        (case c_int_rem (shard_id + i) num_servers of
           Inl e \<Rightarrow> Inl e
         | Inr v \<Rightarrow>
             if v = server_id then Inr 1
             else owns_loop (i + 1) server_id shard_id num_servers replication_factor)
      else Inr 0)"
  by pat_completeness auto
termination
proof (relation "measure (\<lambda>(i, _, _, _, r). nat (sint r - sint i))")
  fix i server_id shard_id num_servers replication_factor :: c_int
  assume "i <s replication_factor"
  then have less: "sint i < sint replication_factor"
    by (simp add: word_sless_alt)
  have "sint replication_factor < 2 ^ 31" "- (2 ^ 31) \<le> sint i"
    using sint_lt [of replication_factor] sint_ge [of i] by simp_all
  with less have "sint (i + 1) = sint i + 1"
    by (simp add: sint_word_ariths(1) signed_take_bit_int_eq_self)
  with less show "((i + 1, server_id, shard_id, num_servers, replication_factor),
      (i, server_id, shard_id, num_servers, replication_factor))
    \<in> measure (\<lambda>(i, _, _, _, r). nat (sint r - sint i))"
    by simp
qed simp

definition herd_server_owns_shard :: "c_int \<Rightarrow> c_int \<Rightarrow> c_int \<Rightarrow> c_int \<Rightarrow> c_error + c_int" where
  "herd_server_owns_shard server_id shard_id num_servers replication_factor =
     owns_loop 0 server_id shard_id num_servers replication_factor"

definition herd_key_belongs_to_server ::
  "uint32_t \<Rightarrow> c_int \<Rightarrow> c_int \<Rightarrow> c_int \<Rightarrow> c_int \<Rightarrow> c_error + c_int" where
  "herd_key_belongs_to_server key_bkt server_id num_servers num_shards replication_factor =
     (case herd_get_shard_for_key key_bkt num_shards of
        Inl e \<Rightarrow> Inl e
      | Inr shard_id \<Rightarrow>
          herd_server_owns_shard server_id shard_id num_servers replication_factor)"

section \<open>Parts of the system outside \<open>herd/main.h\<close>\<close>

text \<open>
  Modelled from the spec: the target server of a client request, computed in the client's
  request cycle (\<open>client.c\<close>, which is not among the sources). Section 4.6, step 2, of the
  specification: \<open>t = primary_of(shard_of(bucket(key)))\<close>; \<open>herd/CLIENT_ROUTING.md\<close>
  gives the two calls and the branch on the replication factor, whose two arms are the
  same call ("for now, always use primary").
\<close>

definition client_target_server :: "uint32_t \<Rightarrow> c_int \<Rightarrow> c_int \<Rightarrow> c_int \<Rightarrow> c_error + c_int" where
  "client_target_server key_bkt num_shards num_servers replication_factor =
     (case herd_get_shard_for_key key_bkt num_shards of
        Inl e \<Rightarrow> Inl e
      | Inr shard_id \<Rightarrow>
          if replication_factor = 1
          then herd_get_primary_server_for_shard shard_id num_servers
          else herd_get_primary_server_for_shard shard_id num_servers)"

section \<open>Reference definitions\<close>

text \<open>
  The value both loops compute in iteration \<open>k\<close>: \<open>(shard_id + k) % num_servers\<close> in
  C arithmetic, for a positive \<open>num_servers\<close>.
\<close>

definition ring_value :: "c_int \<Rightarrow> c_int \<Rightarrow> nat \<Rightarrow> c_int" where
  "ring_value shard_id num_servers k =
     word_of_int (sint (shard_id + word_of_nat k) smod sint num_servers)"

text \<open>
  The replica set as the specification words it:
  \<open>replicas_of(shard) = { (shard + i) mod N : i \<in> [0, R) }\<close>, on mathematical integers.
\<close>

definition replicas_of :: "int \<Rightarrow> int \<Rightarrow> int \<Rightarrow> int set" where
  "replicas_of N R shard = (\<lambda>i. (shard + i) mod N) ` {0..<R}"

section \<open>Arithmetic of the machine integers\<close>

lemma sint_succ_below:
  fixes i r :: c_int
  assumes "i <s r"
  shows "sint (i + 1) = sint i + 1"
proof -
  have "sint r < 2 ^ 31" "- (2 ^ 31) \<le> sint i"
    using sint_lt [of r] sint_ge [of i] by simp_all
  moreover have "sint i < sint r"
    using assms by (simp add: word_sless_alt)
  ultimately show ?thesis
    by (simp add: sint_word_ariths(1) signed_take_bit_int_eq_self)
qed

lemma sint_bounds32:
  fixes x :: c_int
  shows "- 2147483648 \<le> sint x" "sint x \<le> 2147483647"
  using sint_ge [of x] sint_lt [of x] by simp_all

lemma sint_word_of_int32:
  assumes "- 2147483648 \<le> k" "k \<le> 2147483647"
  shows "sint (word_of_int k :: c_int) = k"
  using assms by (simp add: sint_sbintrunc' signed_take_bit_int_eq_self)

lemma smod_nonneg:
  fixes a b :: int
  assumes "0 \<le> a" "0 < b"
  shows "a smod b = a mod b"
  using assms by (simp add: signed_modulo_int_def sgn_if)

text \<open>The remainder of a non-negative int by a positive one.\<close>
lemma c_int_rem_nonneg:
  fixes a b :: c_int
  assumes "0 \<le> sint a" "1 \<le> sint b"
  shows "\<exists>v. c_int_rem a b = Inr v \<and> sint v = sint a mod sint b"
proof -
  have b0: "b \<noteq> 0" using assms(2) by auto
  have nomin: "sint a \<noteq> INT_MIN" using assms(1) by (simp add: INT_MIN_def)
  have m: "sint a smod sint b = sint a mod sint b"
    using assms by (simp add: smod_nonneg)
  have "0 \<le> sint a mod sint b" "sint a mod sint b \<le> sint a"
    using assms by (simp_all add: zmod_le_nonneg_dividend)
  then have "sint (word_of_int (sint a mod sint b) :: c_int) = sint a mod sint b"
    using sint_bounds32(2) [of a] by (intro sint_word_of_int32) simp_all
  then show ?thesis
    using b0 nomin m by (simp add: c_int_rem_def)
qed

text \<open>No trap when the divisor is positive.\<close>
lemma c_int_rem_pos:
  fixes a b :: c_int
  assumes "1 \<le> sint b"
  shows "c_int_rem a b = Inr (word_of_int (sint a smod sint b))"
proof -
  have "b \<noteq> 0" using assms by auto
  moreover have "sint b \<noteq> - 1" using assms by simp
  ultimately show ?thesis by (simp add: c_int_rem_def)
qed

section \<open>The two loops in closed form\<close>

lemma word_of_nat_sint:
  fixes i :: c_int
  assumes "0 \<le> sint i"
  shows "word_of_nat (nat (sint i)) = i"
  using assms by (simp add: of_nat_nat)

lemma c_int_rem_ring:
  fixes i :: c_int
  assumes "1 \<le> sint N" "0 \<le> sint i"
  shows "c_int_rem (sh + i) N = Inr (ring_value sh N (nat (sint i)))"
  using assms by (simp add: c_int_rem_pos ring_value_def word_of_nat_sint)

lemma servers_loop_eq:
  "1 \<le> sint N \<Longrightarrow> 0 \<le> sint i \<Longrightarrow> sint i \<le> sint R \<Longrightarrow> nat (sint R) \<le> length servers \<Longrightarrow>
   servers_loop i sh N R servers =
     Inr (take (nat (sint i)) servers @ map (ring_value sh N) [nat (sint i)..<nat (sint R)]
          @ drop (nat (sint R)) servers)"
proof (induction i sh N R servers rule: servers_loop.induct)
  case (1 i sh N R servers)
  let ?n = "nat (sint i)"
  show ?case
  proof (cases "i <s R")
    case False
    with "1.prems" have "sint i = sint R"
      by (simp add: word_sless_alt)
    with False show ?thesis
      by (subst servers_loop.simps) simp
  next
    case True
    then have lt: "sint i < sint R"
      by (simp add: word_sless_alt)
    with "1.prems" have idx: "?n < length servers" and nR: "?n < nat (sint R)"
      by simp_all
    have rem: "c_int_rem (sh + i) N = Inr (ring_value sh N ?n)"
      using "1.prems" by (simp add: c_int_rem_ring)
    have succ: "sint (i + 1) = sint i + 1"
      using True by (rule sint_succ_below)
    have n1: "nat (sint (i + 1)) = Suc ?n"
      using succ "1.prems" by simp
    let ?servers' = "servers[?n := ring_value sh N ?n]"
    have "servers_loop (i + 1) sh N R ?servers' =
        Inr (take (nat (sint (i + 1))) ?servers'
             @ map (ring_value sh N) [nat (sint (i + 1))..<nat (sint R)]
             @ drop (nat (sint R)) ?servers')"
      using True rem idx "1.prems" succ lt
      by (intro "1.IH") simp_all
    moreover have "take (Suc ?n) ?servers' = take ?n servers @ [ring_value sh N ?n]"
      using idx by (simp add: take_Suc_conv_app_nth)
    moreover have "drop (nat (sint R)) ?servers' = drop (nat (sint R)) servers"
      using nR by simp
    moreover have "[?n..<nat (sint R)] = ?n # [Suc ?n..<nat (sint R)]"
      using nR by (simp add: upt_conv_Cons)
    ultimately show ?thesis
      using True rem idx "1.prems" n1
      by (subst servers_loop.simps) simp
  qed
qed

lemma owns_loop_eq:
  "1 \<le> sint N \<Longrightarrow> 0 \<le> sint i \<Longrightarrow>
   owns_loop i s sh N R =
     Inr (if \<exists>k \<in> {nat (sint i)..<nat (sint R)}. ring_value sh N k = s then 1 else 0)"
proof (induction i s sh N R rule: owns_loop.induct)
  case (1 i s sh N R)
  let ?n = "nat (sint i)"
  show ?case
  proof (cases "i <s R")
    case False
    then have "sint R \<le> sint i"
      by (simp add: word_sless_alt)
    then have "nat (sint R) \<le> ?n"
      by (rule nat_mono)
    then have "\<not> (\<exists>k \<in> {?n..<nat (sint R)}. ring_value sh N k = s)"
      by auto
    with False show ?thesis
      by (subst owns_loop.simps) (simp only: if_False)
  next
    case True
    then have lt: "sint i < sint R"
      by (simp add: word_sless_alt)
    with "1.prems" have nR: "?n < nat (sint R)"
      by simp
    have rem: "c_int_rem (sh + i) N = Inr (ring_value sh N ?n)"
      using "1.prems" by (simp add: c_int_rem_ring)
    have succ: "sint (i + 1) = sint i + 1"
      using True by (rule sint_succ_below)
    have n1: "nat (sint (i + 1)) = Suc ?n"
      using succ "1.prems" by simp
    have split: "{?n..<nat (sint R)} = insert ?n {Suc ?n..<nat (sint R)}"
      using nR by auto
    show ?thesis
    proof (cases "ring_value sh N ?n = s")
      case found: True
      then have "\<exists>k \<in> {?n..<nat (sint R)}. ring_value sh N k = s"
        using nR by auto
      with True rem found show ?thesis
        by (subst owns_loop.simps) simp
    next
      case notfound: False
      have "owns_loop (i + 1) s sh N R =
          Inr (if \<exists>k \<in> {nat (sint (i + 1))..<nat (sint R)}. ring_value sh N k = s then 1 else 0)"
        using True rem notfound "1.prems" succ
        by (intro "1.IH") simp_all
      moreover have "(\<exists>k \<in> {?n..<nat (sint R)}. ring_value sh N k = s)
          \<longleftrightarrow> (\<exists>k \<in> {Suc ?n..<nat (sint R)}. ring_value sh N k = s)"
        using notfound by (subst split) simp
      ultimately show ?thesis
        using True rem notfound n1
        by (subst owns_loop.simps) simp
    qed
  qed
qed

lemma sint_add_of_nat:
  fixes sh :: c_int
  assumes "0 \<le> sint sh" "sint sh + int k \<le> INT_MAX"
  shows "sint (sh + word_of_nat k) = sint sh + int k"
proof -
  have k: "int k \<le> 2147483647"
    using assms by (simp add: INT_MAX_def)
  have "sint (word_of_nat k :: c_int) = int k"
    using k sint_word_of_int32 [of "int k"] by simp
  then have "sint (sh + word_of_nat k) = signed_take_bit 31 (sint sh + int k)"
    by (simp add: sint_word_ariths(1))
  also have "\<dots> = sint sh + int k"
    using assms by (intro signed_take_bit_int_eq_self) (simp_all add: INT_MAX_def)
  finally show ?thesis .
qed

lemma sint_ring_value:
  assumes "0 \<le> sint sh" "1 \<le> sint N" "sint sh + int k \<le> INT_MAX"
  shows "sint (ring_value sh N k) = (sint sh + int k) mod sint N"
proof -
  have a: "sint (sh + word_of_nat k) = sint sh + int k"
    using assms by (simp add: sint_add_of_nat)
  have "0 \<le> sint (sh + word_of_nat k)"
    using a assms(1) by simp
  then obtain v where "c_int_rem (sh + word_of_nat k) N = Inr v"
    and v: "sint v = sint (sh + word_of_nat k) mod sint N"
    using c_int_rem_nonneg [of "sh + word_of_nat k" N] assms(2) by blast
  moreover have "c_int_rem (sh + word_of_nat k) N = Inr (ring_value sh N k)"
    using assms(2) by (simp add: c_int_rem_pos ring_value_def)
  ultimately show ?thesis
    using a by simp
qed

lemma ring_mod_inj:
  fixes a N :: int
  assumes "i < j" "int j < N" "(a + int i) mod N = (a + int j) mod N"
  shows False
proof -
  have "(a + int j) mod N = (a + int i) mod N"
    using assms(3) by simp
  then have "N dvd ((a + int j) - (a + int i))"
    by (simp only: mod_eq_dvd_iff)
  then have "N dvd (int j - int i)"
    by simp
  moreover have "0 < int j - int i" "int j - int i < N"
    using assms(1,2) by simp_all
  ultimately show False
    using zdvd_not_zless by blast
qed

lemma ring_values_distinct:
  assumes "0 \<le> sint sh" "1 \<le> sint N" "int n \<le> sint N" "sint sh + int n - 1 \<le> INT_MAX"
  shows "distinct (map (ring_value sh N) [0..<n])"
proof -
  have "inj_on (ring_value sh N) {0..<n}"
  proof (rule inj_onI)
    fix i j
    assume i: "i \<in> {0..<n}" and j: "j \<in> {0..<n}"
      and eq: "ring_value sh N i = ring_value sh N j"
    have si: "sint (ring_value sh N i) = (sint sh + int i) mod sint N"
      using assms i by (intro sint_ring_value) simp_all
    have sj: "sint (ring_value sh N j) = (sint sh + int j) mod sint N"
      using assms j by (intro sint_ring_value) simp_all
    from eq si sj have m: "(sint sh + int i) mod sint N = (sint sh + int j) mod sint N"
      by simp
    show "i = j"
    proof (rule ccontr)
      assume "i \<noteq> j"
      then consider "i < j" | "j < i" by linarith
      then show False
      proof cases
        case 1
        with m j assms(3) show False
          using ring_mod_inj [of i j "sint N" "sint sh"] by simp
      next
        case 2
        with m i assms(3) show False
          using ring_mod_inj [of j i "sint N" "sint sh"] by simp
      qed
    qed
  qed
  then show ?thesis
    by (simp add: distinct_map)
qed

lemma replicas_of_nat:
  assumes "0 \<le> R"
  shows "replicas_of N R shard = (\<lambda>k. (shard + int k) mod N) ` {0..<nat R}"
proof -
  have "{0..<R} = int ` {0..<nat R}"
  proof (rule set_eqI)
    fix x
    show "x \<in> {0..<R} \<longleftrightarrow> x \<in> int ` {0..<nat R}"
    proof
      assume "x \<in> {0..<R}"
      then have "nat x \<in> {0..<nat R}" "int (nat x) = x"
        by simp_all
      then show "x \<in> int ` {0..<nat R}"
        by (metis imageI)
    next
      assume "x \<in> int ` {0..<nat R}"
      then show "x \<in> {0..<R}"
        by auto
    qed
  qed
  then show ?thesis
    by (simp add: replicas_of_def image_image)
qed

section \<open>The helper functions in closed form\<close>

lemma herd_get_servers_for_shard_eq:
  assumes "1 \<le> sint N" "0 \<le> sint R" "nat (sint R) \<le> length servers"
  shows "herd_get_servers_for_shard sh N R servers =
    Inr (map (ring_value sh N) [0..<nat (sint R)] @ drop (nat (sint R)) servers)"
  using assms servers_loop_eq [of N 0 R servers sh]
  by (simp add: herd_get_servers_for_shard_def)

lemma herd_server_owns_shard_eq:
  assumes "1 \<le> sint N"
  shows "herd_server_owns_shard s sh N R =
    Inr (if \<exists>k \<in> {0..<nat (sint R)}. ring_value sh N k = s then 1 else 0)"
  using assms owns_loop_eq [of N 0 s sh R]
  by (simp add: herd_server_owns_shard_def)

lemma uint_eq_sint_nonneg:
  fixes x :: c_int
  assumes "0 \<le> sint x"
  shows "uint x = sint x"
proof -
  have "sint x < 2 ^ 32"
    using sint_bounds32(2) [of x] by simp
  then have "take_bit 32 (sint x) = sint x"
    using assms by (simp add: take_bit_int_eq_self)
  then show ?thesis
    by (simp add: uint_sint)
qed

lemma sint_eq_uint_small:
  fixes x :: c_int
  assumes "uint x \<le> 2147483647"
  shows "sint x = uint x"
proof -
  have "- (2 ^ 31) \<le> uint x"
    by (rule order_trans [OF _ uint_ge_0]) simp
  moreover have "uint x < 2 ^ 31"
    using assms by simp
  ultimately have "signed_take_bit 31 (uint x) = uint x"
    by (rule signed_take_bit_int_eq_self)
  then show ?thesis
    by (simp add: sint_uint)
qed

lemma herd_get_shard_for_key_eq:
  assumes "1 \<le> sint H"
  shows "\<exists>sh. herd_get_shard_for_key b H = Inr sh \<and> sint sh = uint b mod sint H
    \<and> 0 \<le> sint sh \<and> sint sh < sint H"
proof -
  have H0: "H \<noteq> 0" using assms by auto
  have uH: "uint H = sint H"
    using assms by (simp add: uint_eq_sint_nonneg)
  have u: "uint (b mod H) = uint b mod sint H"
    using uH by (simp add: uint_mod_distrib)
  have lt: "uint (b mod H) < sint H"
    using assms u by simp
  have "sint H \<le> 2147483647"
    by (rule sint_bounds32)
  with lt have "uint (b mod H) \<le> 2147483647"
    by simp
  then have s: "sint (b mod H) = uint (b mod H)"
    by (rule sint_eq_uint_small)
  have "0 \<le> uint (b mod H)"
    by simp
  with s u lt H0 show ?thesis
    by (simp add: herd_get_shard_for_key_def c_uint_rem_def)
qed

lemma herd_get_primary_server_for_shard_eq:
  assumes "0 \<le> sint shard_id" "1 \<le> sint num_servers"
  shows "\<exists>server. herd_get_primary_server_for_shard shard_id num_servers = Inr server
    \<and> sint server = sint shard_id mod sint num_servers"
  using c_int_rem_nonneg [OF assms] by (simp add: herd_get_primary_server_for_shard_def)

section \<open>Request-region slots\<close>

lemma OFFSET_word_of_int:
  "OFFSET wn cn ws = word_of_int (sint wn * 70 * 32 + sint cn * 32 + sint ws)"
  by (simp add: OFFSET_def NUM_CLIENTS_def WINDOW_SIZE_def)

lemma sint_OFFSET:
  assumes "INT_MIN \<le> sint wn * 70 * 32 + sint cn * 32 + sint ws"
    and "sint wn * 70 * 32 + sint cn * 32 + sint ws \<le> INT_MAX"
  shows "sint (OFFSET wn cn ws) = sint wn * 70 * 32 + sint cn * 32 + sint ws"
  using assms unfolding OFFSET_word_of_int INT_MIN_def INT_MAX_def
  by (rule sint_word_of_int32)

lemma mod_digit:
  fixes a d m :: int
  assumes "0 \<le> d" "d < m"
  shows "(a * m + d) mod m = d"
  using assms by simp

lemma slot_constants:
  "sint NUM_WORKERS = 12" "sint NUM_CLIENTS = 70" "sint WINDOW_SIZE = 32"
  by (simp_all add: NUM_WORKERS_def NUM_CLIENTS_def WINDOW_SIZE_def)

lemma sint_OFFSET_in_range:
  assumes "0 \<le> sint wn" "sint wn < sint NUM_WORKERS"
    and "0 \<le> sint cn" "sint cn < sint NUM_CLIENTS"
    and "0 \<le> sint ws" "sint ws < sint WINDOW_SIZE"
  shows "sint (OFFSET wn cn ws) = sint wn * 70 * 32 + sint cn * 32 + sint ws"
  using assms unfolding slot_constants
  by (intro sint_OFFSET) (simp_all add: INT_MIN_def INT_MAX_def)

lemma int_and_63:
  fixes k :: int
  shows "k AND 63 = k mod 64"
proof -
  have "k AND mask 6 = take_bit 6 k"
    by (simp only: take_bit_eq_mask)
  then show ?thesis
    by (simp add: mask_eq_exp_minus_1 take_bit_eq_mod)
qed

section \<open>Placement\<close>

text \<open>
  C1 (amended). For every shard id \<open>\<ge> 0\<close> and every configuration with
  \<open>1 \<le> num_servers\<close> and \<open>1 \<le> replication_factor \<le> num_servers\<close> such that
  \<open>shard_id + replication_factor - 1 \<le> INT_MAX\<close> (no \<open>shard_id + i\<close> leaves the range of
  \<open>int\<close>), \<open>herd_get_servers_for_shard\<close> writes into the first \<open>replication_factor\<close>
  entries of the caller's array, which must have room for them, the ring segment
  \<open>(shard_id + i) mod num_servers\<close> for \<open>i = 0, \<dots>, replication_factor - 1\<close>, in this order;
  these entries are the set \<open>replicas_of\<close> of the specification, they are pairwise
  distinct and there are \<open>replication_factor\<close> of them; the rest of the array is unchanged.
  With 4 servers and replication factor 3 the shards 0, 1, 2, 3 of a 4-shard configuration
  are placed on \<open>[0, 1, 2]\<close>, \<open>[1, 2, 3]\<close>, \<open>[2, 3, 0]\<close> and \<open>[3, 0, 1]\<close>.
\<close>

theorem herd_get_servers_for_shard_ring_segment:
  assumes "0 \<le> sint shard_id" and "1 \<le> sint num_servers"
    and "1 \<le> sint replication_factor" and "sint replication_factor \<le> sint num_servers"
    and "sint shard_id + sint replication_factor - 1 \<le> INT_MAX"
    and "nat (sint replication_factor) \<le> length servers"
  shows "\<exists>out. herd_get_servers_for_shard shard_id num_servers replication_factor servers = Inr out
    \<and> map sint (take (nat (sint replication_factor)) out)
        = map (\<lambda>i. (sint shard_id + int i) mod sint num_servers)
            [0..<nat (sint replication_factor)]
    \<and> sint ` set (take (nat (sint replication_factor)) out)
        = replicas_of (sint num_servers) (sint replication_factor) (sint shard_id)
    \<and> distinct (take (nat (sint replication_factor)) out)
    \<and> card (set (take (nat (sint replication_factor)) out)) = nat (sint replication_factor)
    \<and> drop (nat (sint replication_factor)) out = drop (nat (sint replication_factor)) servers
    \<and> herd_get_servers_for_shard 0 4 3 [a, b, c] = Inr [0, 1, 2]
    \<and> herd_get_servers_for_shard 1 4 3 [a, b, c] = Inr [1, 2, 3]
    \<and> herd_get_servers_for_shard 2 4 3 [a, b, c] = Inr [2, 3, 0]
    \<and> herd_get_servers_for_shard 3 4 3 [a, b, c] = Inr [3, 0, 1]"
proof -
  let ?n = "nat (sint replication_factor)"
  let ?ring = "map (ring_value shard_id num_servers) [0..<?n]"
  let ?out = "?ring @ drop ?n servers"
  have out: "herd_get_servers_for_shard shard_id num_servers replication_factor servers = Inr ?out"
    using assms by (intro herd_get_servers_for_shard_eq) simp_all
  have tk: "take ?n ?out = ?ring"
    by simp
  have dr: "drop ?n ?out = drop ?n servers"
    by simp
  have val: "sint (ring_value shard_id num_servers k) = (sint shard_id + int k) mod sint num_servers"
    if "k < ?n" for k
    using assms that by (intro sint_ring_value) simp_all
  have ms: "map sint ?ring
      = map (\<lambda>i. (sint shard_id + int i) mod sint num_servers) [0..<?n]"
    using val by simp
  have "sint ` set ?ring = set (map sint ?ring)"
    by (simp only: set_map)
  also have "\<dots> = (\<lambda>k. (sint shard_id + int k) mod sint num_servers) ` {0..<?n}"
    by (simp only: ms set_map set_upt)
  also have "\<dots> = replicas_of (sint num_servers) (sint replication_factor) (sint shard_id)"
    using assms(3) by (simp add: replicas_of_nat)
  finally have st: "sint ` set ?ring
      = replicas_of (sint num_servers) (sint replication_factor) (sint shard_id)" .
  have di: "distinct ?ring"
    using assms by (intro ring_values_distinct) simp_all
  have "card (set ?ring) = length ?ring"
    using di by (rule distinct_card)
  also have "\<dots> = ?n"
    by simp
  finally have ca: "card (set ?ring) = ?n" .
  have t0: "herd_get_servers_for_shard 0 4 3 [a, b, c] = Inr [0, 1, 2]"
    by (simp add: herd_get_servers_for_shard_def servers_loop.simps c_int_rem_def INT_MIN_def
        signed_modulo_int_def word_sless_alt)
  have t1: "herd_get_servers_for_shard 1 4 3 [a, b, c] = Inr [1, 2, 3]"
    by (simp add: herd_get_servers_for_shard_def servers_loop.simps c_int_rem_def INT_MIN_def
        signed_modulo_int_def word_sless_alt)
  have t2: "herd_get_servers_for_shard 2 4 3 [a, b, c] = Inr [2, 3, 0]"
    by (simp add: herd_get_servers_for_shard_def servers_loop.simps c_int_rem_def INT_MIN_def
        signed_modulo_int_def word_sless_alt)
  have t3: "herd_get_servers_for_shard 3 4 3 [a, b, c] = Inr [3, 0, 1]"
    by (simp add: herd_get_servers_for_shard_def servers_loop.simps c_int_rem_def INT_MIN_def
        signed_modulo_int_def word_sless_alt)
  have "herd_get_servers_for_shard shard_id num_servers replication_factor servers = Inr ?out
    \<and> map sint (take ?n ?out)
        = map (\<lambda>i. (sint shard_id + int i) mod sint num_servers) [0..<?n]
    \<and> sint ` set (take ?n ?out)
        = replicas_of (sint num_servers) (sint replication_factor) (sint shard_id)
    \<and> distinct (take ?n ?out)
    \<and> card (set (take ?n ?out)) = ?n
    \<and> drop ?n ?out = drop ?n servers"
    using out ms st di ca dr by (simp only: tk simp_thms)
  then show ?thesis
    using t0 t1 t2 t3 by blast
qed

theorem herd_get_servers_for_shard_ring_segment_witness:
  "0 \<le> sint (3 :: c_int) \<and> 1 \<le> sint (4 :: c_int) \<and> 1 \<le> sint (3 :: c_int)
   \<and> sint (3 :: c_int) \<le> sint (4 :: c_int)
   \<and> sint (3 :: c_int) + sint (3 :: c_int) - 1 \<le> INT_MAX
   \<and> nat (sint (3 :: c_int)) \<le> length [9, 9, 9, 9 :: c_int]
   \<and> (\<exists>out. herd_get_servers_for_shard 3 4 3 [9, 9, 9, 9] = Inr out
        \<and> map sint (take 3 out) = [3, 0, 1]
        \<and> sint ` set (take 3 out) = replicas_of 4 3 3
        \<and> distinct (take 3 out)
        \<and> drop 3 out = [9])"
  using herd_get_servers_for_shard_ring_segment
    [where shard_id = 3 and num_servers = 4 and replication_factor = 3
       and servers = "[9, 9, 9, 9]" and a = 0 and b = 0 and c = 0]
  by (simp add: INT_MAX_def upt_rec numeral_3_eq_3) (elim exE conjE, intro exI conjI; assumption)

text \<open>
  Without the bound the ring segment is lost. Shard 2147483646 is a shard of a
  configuration with \<open>INT_MAX\<close> shards; with 5 servers and replication factor 3 the third
  sum \<open>shard_id + 2\<close> wraps around to \<open>INT_MIN\<close>, whose remainder by 5 is \<open>-3\<close>, where the
  ring segment has the server 3.
\<close>

theorem herd_get_servers_for_shard_overflow_counterexample:
  "0 \<le> sint (2147483646 :: c_int) \<and> 1 \<le> sint (5 :: c_int) \<and> 1 \<le> sint (3 :: c_int)
   \<and> sint (3 :: c_int) \<le> sint (5 :: c_int)
   \<and> herd_get_servers_for_shard 2147483646 5 3 [0, 0, 0] = Inr [1, 2, - 3]
   \<and> sint ` set [1, 2, - 3 :: c_int] = {1, 2, - 3}
   \<and> replicas_of 5 3 2147483646 = {1, 2, 3}
   \<and> sint ` set [1, 2, - 3 :: c_int] \<noteq> replicas_of 5 3 2147483646"
proof -
  have out: "herd_get_servers_for_shard 2147483646 5 3 [0, 0, 0] = Inr [1, 2, - 3]"
    by (simp add: herd_get_servers_for_shard_def servers_loop.simps c_int_rem_def INT_MIN_def
        signed_modulo_int_def word_sless_alt)
  have img: "sint ` set [1, 2, - 3 :: c_int] = {1, 2, - 3}"
    by simp
  have "{0..<3::int} = {0, 1, 2}"
    by auto
  then have rep: "replicas_of 5 3 2147483646 = {1, 2, 3}"
    by (simp add: replicas_of_def)
  have ne: "({1, 2, - 3} :: int set) \<noteq> {1, 2, 3}"
  proof
    assume eq: "({1, 2, - 3} :: int set) = {1, 2, 3}"
    have "(- 3 :: int) \<in> {1, 2, - 3}"
      by simp
    then have "(- 3 :: int) \<in> {1, 2, 3}"
      by (simp only: eq)
    then show False
      by simp
  qed
  have differ: "sint ` set [1, 2, - 3 :: c_int] \<noteq> replicas_of 5 3 2147483646"
    by (simp only: img rep ne not_False_eq_True)
  have "0 \<le> sint (2147483646 :: c_int)" "1 \<le> sint (5 :: c_int)" "1 \<le> sint (3 :: c_int)"
    "sint (3 :: c_int) \<le> sint (5 :: c_int)"
    by simp_all
  with out img rep differ show ?thesis
    by (intro conjI)
qed

text \<open>
  C2. For every 32-bit key bucket and every configuration with \<open>num_shards \<ge> 1\<close> and
  \<open>num_servers \<ge> 1\<close>: \<open>herd_get_shard_for_key\<close> returns the shard
  \<open>key_bkt mod num_shards\<close>, \<open>herd_get_primary_server_for_shard\<close> returns for it the server
  \<open>shard_id mod num_servers\<close>, and this server is the one the client routes the request to,
  whatever the replication factor is.
\<close>

theorem client_routes_to_primary:
  assumes "1 \<le> sint num_shards" and "1 \<le> sint num_servers"
  shows "\<exists>shard_id server.
      herd_get_shard_for_key key_bkt num_shards = Inr shard_id
    \<and> sint shard_id = uint key_bkt mod sint num_shards
    \<and> herd_get_primary_server_for_shard shard_id num_servers = Inr server
    \<and> sint server = sint shard_id mod sint num_servers
    \<and> client_target_server key_bkt num_shards num_servers replication_factor = Inr server"
proof -
  obtain shard_id where sh: "herd_get_shard_for_key key_bkt num_shards = Inr shard_id"
    and shv: "sint shard_id = uint key_bkt mod sint num_shards" and sh0: "0 \<le> sint shard_id"
    using herd_get_shard_for_key_eq [OF assms(1), of key_bkt] by blast
  obtain server where p: "herd_get_primary_server_for_shard shard_id num_servers = Inr server"
    and pv: "sint server = sint shard_id mod sint num_servers"
    using herd_get_primary_server_for_shard_eq [OF sh0 assms(2)] by blast
  have "client_target_server key_bkt num_shards num_servers replication_factor = Inr server"
    using sh p by (simp add: client_target_server_def)
  with sh shv p pv show ?thesis
    by blast
qed

theorem client_routes_to_primary_witness:
  "1 \<le> sint (4 :: c_int) \<and> 1 \<le> sint (4 :: c_int)
   \<and> herd_get_shard_for_key 4294967295 4 = Inr 3
   \<and> herd_get_primary_server_for_shard 3 4 = Inr 3
   \<and> client_target_server 4294967295 4 4 3 = Inr 3"
proof -
  have sh: "herd_get_shard_for_key 4294967295 4 = Inr 3"
    by (simp add: herd_get_shard_for_key_def c_uint_rem_def)
  have "\<exists>shard_id server.
      herd_get_shard_for_key 4294967295 4 = Inr shard_id
    \<and> sint shard_id = uint (4294967295 :: uint32_t) mod sint (4 :: c_int)
    \<and> herd_get_primary_server_for_shard shard_id 4 = Inr server
    \<and> sint server = sint shard_id mod sint (4 :: c_int)
    \<and> client_target_server 4294967295 4 4 3 = Inr server"
    by (rule client_routes_to_primary) simp_all
  then obtain server where p: "herd_get_primary_server_for_shard 3 4 = Inr server"
    and v: "sint server = sint (3 :: c_int) mod sint (4 :: c_int)"
    and t: "client_target_server 4294967295 4 4 3 = Inr server"
    using sh by auto
  from v have "sint server = sint (3 :: c_int)"
    by simp
  then have "server = 3"
    by (rule signed_word_eqI)
  with sh p t show ?thesis
    by simp
qed

text \<open>
  C3. For every server id, every shard id \<open>\<ge> 0\<close> and every configuration with
  \<open>1 \<le> num_servers\<close> and \<open>1 \<le> replication_factor \<le> num_servers\<close>,
  \<open>herd_server_owns_shard\<close> returns 1 if the server is among the \<open>replication_factor\<close>
  entries that \<open>herd_get_servers_for_shard\<close> writes into the caller's array (which must have
  room for them), and returns 0 otherwise. Both loops compute the same C expression
  \<open>(shard_id + i) % num_servers\<close>, so this holds also where \<open>shard_id + i\<close> wraps.
\<close>

theorem owns_iff_member_of_computed_replicas:
  assumes "0 \<le> sint shard_id" and "1 \<le> sint num_servers"
    and "1 \<le> sint replication_factor" and "sint replication_factor \<le> sint num_servers"
    and "nat (sint replication_factor) \<le> length servers"
  shows "\<exists>out. herd_get_servers_for_shard shard_id num_servers replication_factor servers = Inr out
    \<and> herd_server_owns_shard server_id shard_id num_servers replication_factor
        = Inr (if server_id \<in> set (take (nat (sint replication_factor)) out) then 1 else 0)"
proof -
  let ?n = "nat (sint replication_factor)"
  let ?out = "map (ring_value shard_id num_servers) [0..<?n] @ drop ?n servers"
  have out: "herd_get_servers_for_shard shard_id num_servers replication_factor servers = Inr ?out"
    using assms by (intro herd_get_servers_for_shard_eq) simp_all
  have "take ?n ?out = map (ring_value shard_id num_servers) [0..<?n]"
    by simp
  then have "server_id \<in> set (take ?n ?out)
      \<longleftrightarrow> (\<exists>k \<in> {0..<?n}. ring_value shard_id num_servers k = server_id)"
    by (simp only: set_map set_upt) auto
  then have "herd_server_owns_shard server_id shard_id num_servers replication_factor
      = Inr (if server_id \<in> set (take ?n ?out) then 1 else 0)"
    using herd_server_owns_shard_eq [OF assms(2), of server_id shard_id replication_factor]
    by (simp only:)
  with out show ?thesis
    by blast
qed

theorem owns_iff_member_of_computed_replicas_witness:
  "0 \<le> sint (3 :: c_int) \<and> 1 \<le> sint (4 :: c_int) \<and> 1 \<le> sint (3 :: c_int)
   \<and> sint (3 :: c_int) \<le> sint (4 :: c_int)
   \<and> nat (sint (3 :: c_int)) \<le> length [9, 9, 9, 9 :: c_int]
   \<and> herd_get_servers_for_shard 3 4 3 [9, 9, 9, 9] = Inr [3, 0, 1, 9]
   \<and> herd_server_owns_shard 0 3 4 3 = Inr 1
   \<and> herd_server_owns_shard 2 3 4 3 = Inr 0"
proof -
  have out: "herd_get_servers_for_shard 3 4 3 [9, 9, 9, 9] = Inr [3, 0, 1, 9]"
    by (simp add: herd_get_servers_for_shard_def servers_loop.simps c_int_rem_def INT_MIN_def
        signed_modulo_int_def word_sless_alt)
  have "\<exists>out. herd_get_servers_for_shard 3 4 3 [9, 9, 9, 9] = Inr out
      \<and> herd_server_owns_shard 0 3 4 3
          = Inr (if 0 \<in> set (take (nat (sint (3 :: c_int))) out) then 1 else 0)"
    by (rule owns_iff_member_of_computed_replicas) simp_all
  with out have a: "herd_server_owns_shard 0 3 4 3 = Inr 1"
    by simp
  have "\<exists>out. herd_get_servers_for_shard 3 4 3 [9, 9, 9, 9] = Inr out
      \<and> herd_server_owns_shard 2 3 4 3
          = Inr (if 2 \<in> set (take (nat (sint (3 :: c_int))) out) then 1 else 0)"
    by (rule owns_iff_member_of_computed_replicas) simp_all
  with out have b: "herd_server_owns_shard 2 3 4 3 = Inr 0"
    by simp
  from out a b show ?thesis
    by simp
qed

text \<open>
  C4. For every 32-bit key bucket, every server id and every configuration with
  \<open>num_shards \<ge> 1\<close>, \<open>1 \<le> num_servers\<close> and \<open>1 \<le> replication_factor \<le> num_servers\<close>,
  \<open>herd_get_shard_for_key\<close> returns a shard and \<open>herd_key_belongs_to_server\<close> equals
  \<open>herd_server_owns_shard\<close> applied to that shard; the answer is 0 or 1.
\<close>

theorem key_belongs_is_owns_of_shard:
  assumes "1 \<le> sint num_shards" and "1 \<le> sint num_servers"
    and "1 \<le> sint replication_factor" and "sint replication_factor \<le> sint num_servers"
  shows "\<exists>shard_id. herd_get_shard_for_key key_bkt num_shards = Inr shard_id
    \<and> herd_key_belongs_to_server key_bkt server_id num_servers num_shards replication_factor
        = herd_server_owns_shard server_id shard_id num_servers replication_factor
    \<and> (herd_key_belongs_to_server key_bkt server_id num_servers num_shards replication_factor
          = Inr 0
        \<or> herd_key_belongs_to_server key_bkt server_id num_servers num_shards replication_factor
          = Inr 1)"
proof -
  obtain shard_id where sh: "herd_get_shard_for_key key_bkt num_shards = Inr shard_id"
    using herd_get_shard_for_key_eq [OF assms(1)] by blast
  have eq: "herd_key_belongs_to_server key_bkt server_id num_servers num_shards replication_factor
      = herd_server_owns_shard server_id shard_id num_servers replication_factor"
    using sh by (simp add: herd_key_belongs_to_server_def)
  have "herd_server_owns_shard server_id shard_id num_servers replication_factor = Inr 0
      \<or> herd_server_owns_shard server_id shard_id num_servers replication_factor = Inr 1"
    using herd_server_owns_shard_eq [OF assms(2)] by simp
  with sh eq show ?thesis
    by simp
qed

theorem key_belongs_is_owns_of_shard_witness:
  "1 \<le> sint (4 :: c_int) \<and> 1 \<le> sint (4 :: c_int) \<and> 1 \<le> sint (3 :: c_int)
   \<and> sint (3 :: c_int) \<le> sint (4 :: c_int)
   \<and> herd_get_shard_for_key 7 4 = Inr 3
   \<and> herd_key_belongs_to_server 7 2 4 4 3 = herd_server_owns_shard 2 3 4 3"
proof -
  have sh: "herd_get_shard_for_key 7 4 = Inr 3"
    by (simp add: herd_get_shard_for_key_def c_uint_rem_def)
  have "\<exists>shard_id. herd_get_shard_for_key 7 4 = Inr shard_id
    \<and> herd_key_belongs_to_server 7 2 4 4 3 = herd_server_owns_shard 2 shard_id 4 3
    \<and> (herd_key_belongs_to_server 7 2 4 4 3 = Inr 0
        \<or> herd_key_belongs_to_server 7 2 4 4 3 = Inr 1)"
    by (rule key_belongs_is_owns_of_shard) simp_all
  with sh show ?thesis
    by simp
qed

section \<open>The request region\<close>

text \<open>
  C6. For every worker index below \<open>NUM_WORKERS\<close>, client index below \<open>NUM_CLIENTS\<close>
  and window slot index below \<open>WINDOW_SIZE\<close>, the macro \<open>OFFSET\<close> computes
  \<open>wn * NUM_CLIENTS * WINDOW_SIZE + cn * WINDOW_SIZE + ws\<close> without leaving the range of
  \<open>int\<close>, with \<open>NUM_CLIENTS = 70\<close> and \<open>WINDOW_SIZE = 32\<close>; so the byte offset of the slot
  is this value times the slot size, whatever the slot size is.
\<close>

theorem OFFSET_slot_index:
  assumes "0 \<le> sint wn" and "sint wn < sint NUM_WORKERS"
    and "0 \<le> sint cn" and "sint cn < sint NUM_CLIENTS"
    and "0 \<le> sint ws" and "sint ws < sint WINDOW_SIZE"
  shows "sint (OFFSET wn cn ws)
      = sint wn * sint NUM_CLIENTS * sint WINDOW_SIZE + sint cn * sint WINDOW_SIZE + sint ws
    \<and> sint NUM_CLIENTS = 70 \<and> sint WINDOW_SIZE = 32
    \<and> sint (OFFSET wn cn ws) * slot_size
      = (sint wn * sint NUM_CLIENTS * sint WINDOW_SIZE + sint cn * sint WINDOW_SIZE + sint ws)
          * slot_size"
  using sint_OFFSET_in_range [OF assms] by (simp add: slot_constants)

theorem OFFSET_slot_index_witness:
  "0 \<le> sint (11 :: c_int) \<and> sint (11 :: c_int) < sint NUM_WORKERS
   \<and> 0 \<le> sint (69 :: c_int) \<and> sint (69 :: c_int) < sint NUM_CLIENTS
   \<and> 0 \<le> sint (31 :: c_int) \<and> sint (31 :: c_int) < sint WINDOW_SIZE
   \<and> sint (OFFSET 11 69 31) = 26879
   \<and> sint (OFFSET 11 69 31) * 64 = 1720256"
  using OFFSET_slot_index [of 11 69 31 64] by (simp add: slot_constants)

text \<open>
  C7 (amended). \<open>RR_SIZE\<close> is the constant \<open>16 * 1024 * 1024\<close>. It is not
  \<open>NUM_WORKERS * NUM_CLIENTS * WINDOW_SIZE * slot_size\<close> for any slot size, with
  \<open>NUM_WORKERS = 12\<close>, \<open>NUM_CLIENTS = 70\<close> and \<open>WINDOW_SIZE = 32\<close>; the region has room for
  all worker, client and window slots exactly when a slot has at most 624 bytes.
\<close>

theorem RR_SIZE_holds_all_slots:
  fixes slot_size :: int
  shows "sint RR_SIZE = 16 * 1024 * 1024
    \<and> sint NUM_WORKERS = 12 \<and> sint NUM_CLIENTS = 70 \<and> sint WINDOW_SIZE = 32
    \<and> sint RR_SIZE \<noteq> sint NUM_WORKERS * sint NUM_CLIENTS * sint WINDOW_SIZE * slot_size
    \<and> (sint NUM_WORKERS * sint NUM_CLIENTS * sint WINDOW_SIZE * slot_size \<le> sint RR_SIZE
        \<longleftrightarrow> slot_size \<le> 624)"
proof -
  have r: "sint RR_SIZE = 16777216"
    by (simp add: RR_SIZE_def)
  have "(26880 :: int) * slot_size \<noteq> 16777216"
  proof
    assume "(26880 :: int) * slot_size = 16777216"
    then have "(26880 :: int) dvd 16777216"
      by (metis dvd_triv_left)
    then show False
      by simp
  qed
  moreover have "(26880 :: int) * slot_size \<le> 16777216 \<longleftrightarrow> slot_size \<le> 624"
    by linarith
  ultimately show ?thesis
    using r by (simp add: slot_constants)
qed

text \<open>
  The region size is no multiple of the number of slots, 26880: it leaves the
  remainder 4096.
\<close>

theorem RR_SIZE_not_slot_product_counterexample:
  "sint RR_SIZE = 16777216
   \<and> sint NUM_WORKERS * sint NUM_CLIENTS * sint WINDOW_SIZE = 26880
   \<and> sint RR_SIZE mod (sint NUM_WORKERS * sint NUM_CLIENTS * sint WINDOW_SIZE) = 4096
   \<and> \<not> (sint NUM_WORKERS * sint NUM_CLIENTS * sint WINDOW_SIZE) dvd sint RR_SIZE"
  by (simp add: RR_SIZE_def slot_constants)

text \<open>
  C8. \<open>UNSIG_BATCH\<close> is \<open>2 ^ 6\<close>, the mask is \<open>UNSIG_BATCH - 1\<close>, and for every
  natural number \<open>n\<close> the test \<open>(n & mask) == 0\<close> holds if and only if
  \<open>n mod UNSIG_BATCH = 0\<close>; the same holds for a counter held in a 32-bit word.
\<close>

theorem UNSIG_BATCH_bitmask:
  fixes n :: nat and x :: c_int
  shows "sint UNSIG_BATCH = 2 ^ 6
    \<and> sint UNSIG_BATCH_mask = sint UNSIG_BATCH - 1
    \<and> (int n AND sint UNSIG_BATCH_mask = 0 \<longleftrightarrow> n mod nat (sint UNSIG_BATCH) = 0)
    \<and> (x AND UNSIG_BATCH_mask = 0 \<longleftrightarrow> uint x mod uint UNSIG_BATCH = 0)"
proof -
  have u: "sint UNSIG_BATCH = 64" "sint UNSIG_BATCH_mask = 63" "uint UNSIG_BATCH = 64"
    by (simp_all add: UNSIG_BATCH_def UNSIG_BATCH_mask_def)
  have a: "int n AND 63 = 0 \<longleftrightarrow> n mod 64 = 0"
  proof -
    have "int n mod 64 = int (n mod 64)"
      by (simp add: zmod_int)
    then show ?thesis
      by (simp add: int_and_63)
  qed
  have "uint (x AND 63) = uint x AND 63"
    by (simp add: uint_and)
  then have "uint (x AND 63) = uint x mod 64"
    by (simp add: int_and_63)
  then have b: "x AND 63 = 0 \<longleftrightarrow> uint x mod 64 = 0"
    by (metis uint_0_iff)
  from u a b show ?thesis
    by (simp add: UNSIG_BATCH_def UNSIG_BATCH_mask_def)
qed

text \<open>
  C9. For every shard id \<open>\<ge> 0\<close> and every configuration with \<open>1 \<le> num_servers\<close> and
  \<open>1 \<le> replication_factor \<le> num_servers\<close>, the primary server of the shard owns the
  shard: \<open>herd_server_owns_shard\<close> returns 1 for it, in the first iteration of its loop.
\<close>

theorem primary_server_owns_shard:
  assumes "0 \<le> sint shard_id" and "1 \<le> sint num_servers"
    and "1 \<le> sint replication_factor" and "sint replication_factor \<le> sint num_servers"
  shows "\<exists>primary. herd_get_primary_server_for_shard shard_id num_servers = Inr primary
    \<and> herd_server_owns_shard primary shard_id num_servers replication_factor = Inr 1"
proof -
  let ?p = "word_of_int (sint shard_id smod sint num_servers) :: c_int"
  have rem: "c_int_rem shard_id num_servers = Inr ?p"
    using assms(2) by (rule c_int_rem_pos)
  have first: "0 <s replication_factor"
    using assms(3) by (simp add: word_sless_alt)
  have "owns_loop 0 ?p shard_id num_servers replication_factor = Inr 1"
    using first rem by (subst owns_loop.simps) simp
  with rem show ?thesis
    by (simp add: herd_get_primary_server_for_shard_def herd_server_owns_shard_def)
qed

theorem primary_server_owns_shard_witness:
  "0 \<le> sint (3 :: c_int) \<and> 1 \<le> sint (4 :: c_int) \<and> 1 \<le> sint (3 :: c_int)
   \<and> sint (3 :: c_int) \<le> sint (4 :: c_int)
   \<and> herd_get_primary_server_for_shard 3 4 = Inr 3
   \<and> herd_server_owns_shard 3 3 4 3 = Inr 1"
proof -
  have p: "herd_get_primary_server_for_shard 3 4 = Inr 3"
    by (simp add: herd_get_primary_server_for_shard_def c_int_rem_def INT_MIN_def
        signed_modulo_int_def)
  have "\<exists>primary. herd_get_primary_server_for_shard 3 4 = Inr primary
      \<and> herd_server_owns_shard primary 3 4 3 = Inr 1"
    by (rule primary_server_owns_shard) simp_all
  with p show ?thesis
    by simp
qed

text \<open>
  C10. On worker indices below \<open>NUM_WORKERS\<close>, client indices below \<open>NUM_CLIENTS\<close>
  and window slot indices below \<open>WINDOW_SIZE\<close> the macro \<open>OFFSET\<close> is injective: two
  positions have the same slot index only if they are the same position.
\<close>

theorem OFFSET_injective:
  assumes "0 \<le> sint wn" and "sint wn < sint NUM_WORKERS"
    and "0 \<le> sint cn" and "sint cn < sint NUM_CLIENTS"
    and "0 \<le> sint ws" and "sint ws < sint WINDOW_SIZE"
    and "0 \<le> sint wn'" and "sint wn' < sint NUM_WORKERS"
    and "0 \<le> sint cn'" and "sint cn' < sint NUM_CLIENTS"
    and "0 \<le> sint ws'" and "sint ws' < sint WINDOW_SIZE"
  shows "OFFSET wn cn ws = OFFSET wn' cn' ws' \<longleftrightarrow> wn = wn' \<and> cn = cn' \<and> ws = ws'"
proof
  assume eq: "OFFSET wn cn ws = OFFSET wn' cn' ws'"
  have a: "sint (OFFSET wn cn ws) = sint wn * 70 * 32 + sint cn * 32 + sint ws"
    using assms(1-6) by (rule sint_OFFSET_in_range)
  have b: "sint (OFFSET wn' cn' ws') = sint wn' * 70 * 32 + sint cn' * 32 + sint ws'"
    using assms(7-12) by (rule sint_OFFSET_in_range)
  from eq a b have e: "sint wn * 70 * 32 + sint cn * 32 + sint ws
      = sint wn' * 70 * 32 + sint cn' * 32 + sint ws'"
    by simp
  have bounds: "0 \<le> sint cn" "sint cn < 70" "0 \<le> sint ws" "sint ws < 32"
    "0 \<le> sint cn'" "sint cn' < 70" "0 \<le> sint ws'" "sint ws' < 32"
    using assms unfolding slot_constants by simp_all
  have e1: "(sint wn * 70 + sint cn) * 32 + sint ws = (sint wn' * 70 + sint cn') * 32 + sint ws'"
    using e by (simp add: algebra_simps)
  have "((sint wn * 70 + sint cn) * 32 + sint ws) mod 32 = sint ws"
    "((sint wn' * 70 + sint cn') * 32 + sint ws') mod 32 = sint ws'"
    using bounds by (simp_all only: mod_digit)
  then have s: "sint ws = sint ws'"
    unfolding e1 by simp
  with e1 have e2: "sint wn * 70 + sint cn = sint wn' * 70 + sint cn'"
    by simp
  have "(sint wn * 70 + sint cn) mod 70 = sint cn"
    "(sint wn' * 70 + sint cn') mod 70 = sint cn'"
    using bounds by (simp_all only: mod_digit)
  then have c: "sint cn = sint cn'"
    unfolding e2 by simp
  with e2 have w: "sint wn = sint wn'"
    by simp
  from w c s show "wn = wn' \<and> cn = cn' \<and> ws = ws'"
    by (intro conjI signed_word_eqI)
next
  assume "wn = wn' \<and> cn = cn' \<and> ws = ws'"
  then show "OFFSET wn cn ws = OFFSET wn' cn' ws'"
    by simp
qed

theorem OFFSET_injective_witness:
  "0 \<le> sint (1 :: c_int) \<and> sint (1 :: c_int) < sint NUM_WORKERS
   \<and> 0 \<le> sint (2 :: c_int) \<and> sint (2 :: c_int) < sint NUM_CLIENTS
   \<and> 0 \<le> sint (31 :: c_int) \<and> sint (31 :: c_int) < sint WINDOW_SIZE
   \<and> 0 \<le> sint (3 :: c_int) \<and> sint (3 :: c_int) < sint NUM_CLIENTS
   \<and> 0 \<le> sint (0 :: c_int) \<and> sint (0 :: c_int) < sint WINDOW_SIZE
   \<and> OFFSET 1 2 31 \<noteq> OFFSET 1 3 0
   \<and> OFFSET 1 2 31 = OFFSET 1 2 31"
  using OFFSET_injective [of 1 2 31 1 3 0] OFFSET_injective [of 1 2 31 1 2 31]
  by (simp add: slot_constants)

end
